theory Spec2Isabelle
  imports Main "HOL-Library.AList"
begin

section \<open>JavaScript values and plain objects\<close>

text \<open>
  The store of \<^verbatim>\<open>src/lib/taomu-store.tsx\<close> keeps one plain object of named fields.
  Field names are strings. A value is a primitive or a reference to an object; two
  references are equal exactly when they are the same address. Numbers are integers,
  with \<open>JNaN\<close> kept apart because \<^verbatim>\<open>NaN !== NaN\<close>.

  Outside the model: properties inherited from a prototype, symbol keys, and the
  numeric-first enumeration order JavaScript gives to keys that are array indices (a new
  property goes to the end of the list here).
\<close>

type_synonym key = string
type_synonym addr = nat

datatype jsval =
    JUndefined
  | JNull
  | JBool bool
  | JNum int
  | JNaN
  | JStr string
  | JObject addr

text \<open>\<^verbatim>\<open>a === b\<close> on these values.\<close>

definition strict_eq :: "jsval \<Rightarrow> jsval \<Rightarrow> bool" where
  "strict_eq a b \<longleftrightarrow> a = b \<and> a \<noteq> JNaN"

text \<open>
  The own enumerable properties of a plain object, in enumeration order. Where a name
  occurs twice in the list the first entry is the property.
\<close>

type_synonym obj = "(key \<times> jsval) list"

text \<open>\<^verbatim>\<open>Object.keys(ob)\<close>\<close>

definition keys :: "obj \<Rightarrow> key list" where
  "keys ob = remdups (map fst ob)"

text \<open>\<^verbatim>\<open>ob[k]\<close>: the value of an own property, \<^verbatim>\<open>undefined\<close> when there is none.\<close>

definition get_prop :: "obj \<Rightarrow> key \<Rightarrow> jsval" where
  "get_prop ob k = (case map_of ob k of None \<Rightarrow> JUndefined | Some v \<Rightarrow> v)"

text \<open>\<^verbatim>\<open>ob[k] = v\<close>: overwrite in place, or add the property at the end.\<close>

definition set_prop :: "obj \<Rightarrow> key \<Rightarrow> jsval \<Rightarrow> obj" where
  "set_prop ob k v = AList.update k v ob"

text \<open>\<^verbatim>\<open>Object.assign(target, source)\<close>: every own key of the source, in order.\<close>

definition assign :: "obj \<Rightarrow> obj \<Rightarrow> obj" where
  "assign target source = fold (\<lambda>k t. set_prop t k (get_prop source k)) (keys source) target"

section \<open>The store\<close>

text \<open>
  \<^verbatim>\<open>DispatchOptions\<close>: both members are optional, \<open>None\<close> is an absent member.
  A callback is named by a number; calling it is an event of the trace.
\<close>

record DispatchOptions =
  check :: "bool option"
  onChanged :: "nat option"

text \<open>The second argument of \<^verbatim>\<open>dispatch\<close>: omitted, a bare callback, or an options object.\<close>

datatype options_arg = Omitted | Callback nat | Options DispatchOptions

text \<open>What \<^verbatim>\<open>beforeDispatch\<close> may return: \<^verbatim>\<open>boolean | Partial<StateT>\<close>.\<close>

datatype hook_result = HBool bool | HObject obj

text \<open>
  Calls that leave the store: the hooks, the transforms, the listeners, the
  \<^verbatim>\<open>onChanged\<close> callback and \<^verbatim>\<open>console.warn\<close>. Each is recorded with its arguments;
  an object argument is recorded with its address and its contents at the call.
\<close>

datatype event =
    BeforeDispatchCall nat obj DispatchOptions
  | ActionCall key jsval addr obj
  | ListenerCall key nat
  | OnChangedCall nat addr
  | Warn nat
  | AfterDispatchCall nat obj

text \<open>
  The fields of \<^verbatim>\<open>class Store\<close>, with the part of the JavaScript heap the class reads
  and writes: \<open>heap\<close> gives the contents of the object at an address, addresses from
  \<open>next_addr\<close> on are not yet allocated. \<open>state\<close> is the reference held in
  \<^verbatim>\<open>this.state\<close>. A \<^verbatim>\<open>Set<Listener>\<close> is the list of its members in insertion order.
  A transform and the pre-dispatch hook are functions of their arguments: a transform
  gets the incoming value and the contents of the state object, the hook gets the batch
  number, the contents of the partial state and the effective options; they have no
  other effect. A listener, \<^verbatim>\<open>onChanged\<close> and the post-dispatch hook return nothing and
  are named by a number. The batch counter is a natural number.
\<close>

record store =
  heap :: "addr \<Rightarrow> obj"
  next_addr :: addr
  trace :: "event list"
  state :: addr
  actions :: "key \<Rightarrow> (jsval \<Rightarrow> obj \<Rightarrow> obj) option"
  defaultDispatchOptions :: DispatchOptions
  listeners :: "key \<Rightarrow> nat list option"
  dispatchBatch :: nat
  dispatchBatchOptionsMap :: "nat \<Rightarrow> DispatchOptions option"
  takeOverDispatch :: bool
  beforeDispatch :: "(nat \<Rightarrow> obj \<Rightarrow> DispatchOptions \<Rightarrow> hook_result) option"
  afterDispatch :: "nat option"

text \<open>
  \<^verbatim>\<open>new Store(state, actions)\<close> (lines 31-56): the caller's object becomes the state,
  an omitted \<^verbatim>\<open>actions\<close> is the empty map.
\<close>

definition new_Store :: "(addr \<Rightarrow> obj) \<Rightarrow> addr \<Rightarrow> addr \<Rightarrow> (key \<Rightarrow> (jsval \<Rightarrow> obj \<Rightarrow> obj) option) \<Rightarrow> store" where
  "new_Store h n st acts =
     \<lparr>heap = h, next_addr = n, trace = [], state = st, actions = acts,
      defaultDispatchOptions = \<lparr>check = Some False, onChanged = None\<rparr>,
      listeners = Map.empty, dispatchBatch = 0, dispatchBatchOptionsMap = Map.empty,
      takeOverDispatch = False, beforeDispatch = None, afterDispatch = None\<rparr>"

definition emit :: "event \<Rightarrow> store \<Rightarrow> store" where
  "emit e s = s\<lparr>trace := trace s @ [e]\<rparr>"

text \<open>\<^verbatim>\<open>subscribe\<close> (lines 81-87) and the function it returns.\<close>

definition subscribe :: "store \<Rightarrow> nat \<Rightarrow> key \<Rightarrow> store" where
  "subscribe s listener k =
     (let ls = (case listeners s k of Some l \<Rightarrow> l | None \<Rightarrow> []);
          ls' = (if listener \<in> set ls then ls else ls @ [listener])
      in s\<lparr>listeners := (listeners s)(k \<mapsto> ls')\<rparr>)"

definition unsubscribe :: "store \<Rightarrow> nat \<Rightarrow> key \<Rightarrow> store" where
  "unsubscribe s listener k =
     (case listeners s k of
        None \<Rightarrow> s
      | Some ls \<Rightarrow> s\<lparr>listeners := (listeners s)(k \<mapsto> removeAll listener ls)\<rparr>)"

text \<open>
  \<^verbatim>\<open>getState\<close> (lines 96-102). The test is \<^verbatim>\<open>if (key)\<close>: a string is truthy when it is
  not empty.
\<close>

definition getState :: "store \<Rightarrow> key option \<Rightarrow> jsval" where
  "getState s k =
     (case k of
        None \<Rightarrow> JObject (state s)
      | Some k' \<Rightarrow> if k' \<noteq> [] then get_prop (heap s (state s)) k' else JObject (state s))"

text \<open>\<^verbatim>\<open>staticUpdateState\<close> (lines 195-197) writes into the live state object.\<close>

definition staticUpdateState :: "store \<Rightarrow> addr \<Rightarrow> store" where
  "staticUpdateState s nextState =
     s\<lparr>heap := (heap s)(state s := assign (heap s (state s)) (heap s nextState))\<rparr>"

text \<open>\<^verbatim>\<open>executeListeners\<close> (lines 159-188).\<close>

definition call_listeners :: "key \<Rightarrow> store \<Rightarrow> store" where
  "call_listeners realChangeKey s =
     (case listeners s realChangeKey of
        Some ls \<Rightarrow> fold (\<lambda>l. emit (ListenerCall realChangeKey l)) ls s
      | None \<Rightarrow> s)"

definition executeListeners :: "store \<Rightarrow> nat \<Rightarrow> obj \<Rightarrow> DispatchOptions option \<Rightarrow> store" where
  "executeListeners s batch changedState options =
     (let optionsH = (case options of Some opts \<Rightarrow> Some opts
                      | None \<Rightarrow> dispatchBatchOptionsMap s batch);
          s1 = (case options of Some opts \<Rightarrow> s
                | None \<Rightarrow> s\<lparr>dispatchBatchOptionsMap := (dispatchBatchOptionsMap s)(batch := None)\<rparr>);
          s2 = fold call_listeners (keys changedState) s1;
          s3 = (case optionsH of
                  Some opts \<Rightarrow> (case onChanged opts of
                                  Some cb \<Rightarrow> emit (OnChangedCall cb (state s2)) s2
                                | None \<Rightarrow> s2)
                | None \<Rightarrow> emit (Warn batch) s2)
      in case afterDispatch s3 of
           Some h \<Rightarrow> emit (AfterDispatchCall h changedState) s3
         | None \<Rightarrow> s3)"

text \<open>
  \<^verbatim>\<open>dispatch\<close> (lines 109-150). \<open>merge_options\<close> is \<^verbatim>\<open>Object.assign(optionsH, options)\<close>
  on the two optional members.
\<close>

definition merge_options :: "DispatchOptions \<Rightarrow> DispatchOptions \<Rightarrow> DispatchOptions" where
  "merge_options optionsH options =
     \<lparr>check = (case check options of Some b \<Rightarrow> Some b | None \<Rightarrow> check optionsH),
      onChanged = (case onChanged options of Some f \<Rightarrow> Some f | None \<Rightarrow> onChanged optionsH)\<rparr>"

definition effective_options :: "store \<Rightarrow> options_arg \<Rightarrow> DispatchOptions" where
  "effective_options s options =
     (case options of
        Callback f \<Rightarrow> (defaultDispatchOptions s)\<lparr>onChanged := Some f\<rparr>
      | Options opts \<Rightarrow> merge_options (defaultDispatchOptions s) opts
      | Omitted \<Rightarrow> defaultDispatchOptions s)"

text \<open>
  Lines 120-126: the batch counter, then the pre-dispatch hook. The result says whether
  the dispatch goes on (\<open>False\<close> is the early return of line 124).
\<close>

definition dispatch_enter :: "store \<Rightarrow> addr \<Rightarrow> DispatchOptions \<Rightarrow> bool \<times> store" where
  "dispatch_enter s nextState optionsH =
     (let s1 = s\<lparr>dispatchBatch := Suc (dispatchBatch s)\<rparr>
      in case beforeDispatch s1 of
           None \<Rightarrow> (True, s1)
         | Some hook \<Rightarrow>
             (let res = hook (dispatchBatch s1) (heap s1 nextState) optionsH;
                  s2 = emit (BeforeDispatchCall (dispatchBatch s1) (heap s1 nextState) optionsH) s1
              in case res of
                   HBool b \<Rightarrow> (b, s2)
                 | HObject r \<Rightarrow>
                     (True, s2\<lparr>heap := (heap s2)(nextState := assign (heap s2 nextState) r)\<rparr>)))"

text \<open>The body of \<^verbatim>\<open>changeKeys.forEach\<close> (lines 128-141), on the store and \<^verbatim>\<open>changedState\<close>.\<close>

definition dispatch_key :: "addr \<Rightarrow> DispatchOptions \<Rightarrow> key \<Rightarrow> store \<times> obj \<Rightarrow> store \<times> obj" where
  "dispatch_key nextState optionsH k = (\<lambda>(s, changedState).
     let nextValue = get_prop (heap s nextState) k in
     case actions s k of
       Some f \<Rightarrow>
         (emit (ActionCall k nextValue (state s) (heap s (state s))) s,
          assign changedState (f nextValue (heap s (state s))))
     | None \<Rightarrow>
         if check optionsH = Some True then
           (let currentValue = get_prop (heap s (state s)) k in
            if \<not> strict_eq nextValue currentValue
            then (s, set_prop changedState k nextValue)
            else (s, changedState))
         else (s, set_prop changedState k nextValue))"

text \<open>Lines 128-149: resolve the keys, replace the state, route the notification.\<close>

definition dispatch_apply :: "addr \<Rightarrow> key list \<Rightarrow> DispatchOptions \<Rightarrow> store \<Rightarrow> store" where
  "dispatch_apply nextState changeKeys optionsH s =
     (let (s3, changedState) = fold (dispatch_key nextState optionsH) changeKeys (s, []);
          s4 = s3\<lparr>heap := (heap s3)(next_addr s3 := assign (assign [] (heap s3 (state s3))) changedState),
                  state := next_addr s3,
                  next_addr := Suc (next_addr s3)\<rparr>
      in if takeOverDispatch s4
         then s4\<lparr>dispatchBatchOptionsMap := (dispatchBatchOptionsMap s4)(dispatchBatch s4 \<mapsto> optionsH)\<rparr>
         else executeListeners s4 (dispatchBatch s4) changedState (Some optionsH))"

definition dispatch :: "store \<Rightarrow> addr \<Rightarrow> options_arg \<Rightarrow> store" where
  "dispatch s nextState options =
     (let optionsH = effective_options s options;
          changeKeys = keys (heap s nextState);
          (go, s2) = dispatch_enter s nextState optionsH
      in if go then dispatch_apply nextState changeKeys optionsH s2 else s2)"

section \<open>Observations of one dispatch\<close>

text \<open>The dispatch is vetoed: the early return of line 124 is taken.\<close>

definition vetoed :: "store \<Rightarrow> addr \<Rightarrow> options_arg \<Rightarrow> bool" where
  "vetoed s nextState options \<longleftrightarrow> \<not> fst (dispatch_enter s nextState (effective_options s options))"

text \<open>The store when line 128 is reached.\<close>

definition entered :: "store \<Rightarrow> addr \<Rightarrow> options_arg \<Rightarrow> store" where
  "entered s nextState options = snd (dispatch_enter s nextState (effective_options s options))"

text \<open>
  The changed-set: the value of the local \<^verbatim>\<open>changedState\<close> when line 143 is reached,
  that is, what the per-key loop computes from the store and the partial state it finds
  at line 128.
\<close>

definition dispatch_changedState :: "store \<Rightarrow> addr \<Rightarrow> options_arg \<Rightarrow> obj" where
  "dispatch_changedState s nextState options =
     snd (fold (dispatch_key nextState (effective_options s options)) (keys (heap s nextState))
            (entered s nextState options, []))"

text \<open>The calls made between two stores of one run.\<close>

definition new_events :: "store \<Rightarrow> store \<Rightarrow> event list" where
  "new_events s s' = drop (length (trace s)) (trace s')"

text \<open>The listener calls of one notification pass, in order.\<close>

definition listener_events :: "(key \<Rightarrow> nat list option) \<Rightarrow> key list \<Rightarrow> event list" where
  "listener_events reg ks =
     concat (map (\<lambda>k. case reg k of Some ls \<Rightarrow> map (ListenerCall k) ls | None \<Rightarrow> []) ks)"

text \<open>Listener \<open>l\<close> is in the set registered for field \<open>K\<close>.\<close>

definition subscribed :: "store \<Rightarrow> key \<Rightarrow> nat \<Rightarrow> bool" where
  "subscribed s K l \<longleftrightarrow> (case listeners s K of Some ls \<Rightarrow> l \<in> set ls | None \<Rightarrow> False)"

text \<open>The call of the pre-dispatch hook, when one is registered (line 123).\<close>

definition hook_events :: "store \<Rightarrow> addr \<Rightarrow> DispatchOptions \<Rightarrow> event list" where
  "hook_events s nextState optionsH =
     (case beforeDispatch s of
        None \<Rightarrow> []
      | Some hook \<Rightarrow> [BeforeDispatchCall (Suc (dispatchBatch s)) (heap s nextState) optionsH])"

text \<open>The transform calls of the per-key loop over \<open>ks\<close>, in order (line 132).\<close>

definition action_events :: "store \<Rightarrow> addr \<Rightarrow> key list \<Rightarrow> event list" where
  "action_events s nextState ks =
     concat (map (\<lambda>k. case actions s k of
                        Some f \<Rightarrow> [ActionCall k (get_prop (heap s nextState) k) (state s) (heap s (state s))]
                      | None \<Rightarrow> []) ks)"

text \<open>What one round of the per-key loop does to \<^verbatim>\<open>changedState\<close>.\<close>

definition changed_step :: "store \<Rightarrow> addr \<Rightarrow> DispatchOptions \<Rightarrow> key \<Rightarrow> obj \<Rightarrow> obj" where
  "changed_step s nextState optionsH k changedState =
     snd (dispatch_key nextState optionsH k (s, changedState))"

text \<open>
  The calls that end a notification pass (lines 181-187): \<^verbatim>\<open>onChanged\<close> or the warning,
  then the post-dispatch hook.
\<close>

definition completion_events :: "store \<Rightarrow> nat \<Rightarrow> obj \<Rightarrow> DispatchOptions option \<Rightarrow> event list" where
  "completion_events s batch changedState optionsH =
     (case optionsH of
        Some opts \<Rightarrow> (case onChanged opts of Some cb \<Rightarrow> [OnChangedCall cb (state s)] | None \<Rightarrow> [])
      | None \<Rightarrow> [Warn batch])
     @ (case afterDispatch s of Some h \<Rightarrow> [AfterDispatchCall h changedState] | None \<Rightarrow> [])"

section \<open>Runs of a store\<close>

text \<open>
  What the owner of a store and its subscribers can do to it: the public operations,
  the settable extension points, and allocating or writing an object they hold.
\<close>

datatype op =
    Dispatch addr options_arg
  | ExecuteListeners nat obj "DispatchOptions option"
  | Subscribe nat key
  | Unsubscribe nat key
  | StaticUpdateState addr
  | SetTakeOverDispatch bool
  | SetBeforeDispatch "(nat \<Rightarrow> obj \<Rightarrow> DispatchOptions \<Rightarrow> hook_result) option"
  | SetAfterDispatch "nat option"
  | SetDefaultDispatchOptions DispatchOptions
  | NewObject obj
  | WriteObject addr obj

fun apply_op :: "op \<Rightarrow> store \<Rightarrow> store" where
  "apply_op (Dispatch n options) s = dispatch s n options"
| "apply_op (ExecuteListeners b c options) s = executeListeners s b c options"
| "apply_op (Subscribe l k) s = subscribe s l k"
| "apply_op (Unsubscribe l k) s = unsubscribe s l k"
| "apply_op (StaticUpdateState n) s = staticUpdateState s n"
| "apply_op (SetTakeOverDispatch b) s = s\<lparr>takeOverDispatch := b\<rparr>"
| "apply_op (SetBeforeDispatch h) s = s\<lparr>beforeDispatch := h\<rparr>"
| "apply_op (SetAfterDispatch h) s = s\<lparr>afterDispatch := h\<rparr>"
| "apply_op (SetDefaultDispatchOptions d) s = s\<lparr>defaultDispatchOptions := d\<rparr>"
| "apply_op (NewObject ob) s = s\<lparr>heap := (heap s)(next_addr s := ob), next_addr := Suc (next_addr s)\<rparr>"
| "apply_op (WriteObject a ob) s = s\<lparr>heap := (heap s)(a := ob)\<rparr>"

text \<open>
  The outstanding batches: a batch becomes outstanding when a dispatch in hand-off mode
  gets past the veto, and stops being so when \<^verbatim>\<open>executeListeners\<close> is called for it
  with the options argument omitted.
\<close>

fun track :: "op \<Rightarrow> store \<Rightarrow> nat set \<Rightarrow> nat set" where
  "track (Dispatch n options) s out =
     (if takeOverDispatch s \<and> \<not> vetoed s n options then insert (Suc (dispatchBatch s)) out else out)"
| "track (ExecuteListeners b c None) s out = out - {b}"
| "track p s out = out"

fun run :: "op list \<Rightarrow> store \<times> nat set \<Rightarrow> store \<times> nat set" where
  "run [] x = x"
| "run (p # ps) (s, out) = run ps (apply_op p s, track p s out)"

text \<open>The store after a sequence of operations.\<close>

definition after_ops :: "op list \<Rightarrow> store \<Rightarrow> store" where
  "after_ops ops s = fst (run ops (s, {}))"

section \<open>A concrete store\<close>

text \<open>
  The store of the spec's scenarios, \<^verbatim>\<open>{count: 0, name: "a"}\<close> at address 0, with partial
  states \<^verbatim>\<open>{count: 1}\<close> at 1, \<^verbatim>\<open>{}\<close> at 2, \<^verbatim>\<open>{count: 5, name: "a"}\<close> at 3 and
  \<^verbatim>\<open>{count: 5, name: "z"}\<close> at 4, a listener 8 on \<^verbatim>\<open>count\<close>, a listener 7 on \<^verbatim>\<open>name\<close>
  and a post-dispatch hook.
\<close>

definition example_heap :: "addr \<Rightarrow> obj" where
  "example_heap =
     (\<lambda>_. [])(0 := [(''count'', JNum 0), (''name'', JStr ''a'')],
              1 := [(''count'', JNum 1)],
              3 := [(''count'', JNum 5), (''name'', JStr ''a'')],
              4 := [(''count'', JNum 5), (''name'', JStr ''z'')])"

definition example_store :: store where
  "example_store =
     (subscribe (subscribe (new_Store example_heap 5 0 Map.empty) 8 ''count'') 7 ''name'')
       \<lparr>afterDispatch := Some 0\<rparr>"

text \<open>The transform of the spec's scenario 9: \<^verbatim>\<open>(v, s) => ({count: v, name: "n"})\<close>.\<close>

definition example_actions :: "key \<Rightarrow> (jsval \<Rightarrow> obj \<Rightarrow> obj) option" where
  "example_actions = [''count'' \<mapsto> (\<lambda>v st. [(''count'', v), (''name'', JStr ''n'')])]"

text \<open>The same store with a pre-dispatch hook that vetoes every dispatch.\<close>

definition veto_store :: store where
  "veto_store = example_store\<lparr>beforeDispatch := Some (\<lambda>b ns opts. HBool False)\<rparr>"

text \<open>The same store with a pre-dispatch hook that returns \<^verbatim>\<open>{name: "b"}\<close>.\<close>

definition augment_store :: store where
  "augment_store = example_store\<lparr>beforeDispatch := Some (\<lambda>b ns opts. HObject [(''name'', JStr ''b'')])\<rparr>"

text \<open>The same store with the transform on \<^verbatim>\<open>count\<close>.\<close>

definition ripple_store :: store where
  "ripple_store = example_store\<lparr>actions := example_actions\<rparr>"

text \<open>The same store with a transform on \<^verbatim>\<open>count\<close> that returns \<^verbatim>\<open>count\<close> alone.\<close>

definition plain_store :: store where
  "plain_store = example_store\<lparr>actions := [''count'' \<mapsto> (\<lambda>v st. [(''count'', v)])]\<rparr>"

text \<open>Hand-off mode: the example store, and the vetoing store, with \<^verbatim>\<open>takeOverDispatch\<close> set.\<close>

definition handoff_store :: store where
  "handoff_store = example_store\<lparr>takeOverDispatch := True\<rparr>"

definition handoff_veto_store :: store where
  "handoff_veto_store = veto_store\<lparr>takeOverDispatch := True\<rparr>"

text \<open>
  \<^verbatim>\<open>dispatch({count: 1}, cb)\<close> in hand-off mode (batch 1), a second hand-off dispatch
  (batch 2), \<^verbatim>\<open>executeListeners(1, {count: 1})\<close>, a new subscription, and
  \<^verbatim>\<open>executeListeners(1, {count: 1})\<close> again.
\<close>

definition handoff_s1 :: store where
  "handoff_s1 = dispatch handoff_store 1 (Callback 3)"

definition handoff_t1 :: store where
  "handoff_t1 = after_ops [Dispatch 3 Omitted] handoff_s1"

definition handoff_s2 :: store where
  "handoff_s2 = executeListeners handoff_t1 1 [(''count'', JNum 1)] None"

definition handoff_t2 :: store where
  "handoff_t2 = after_ops [Subscribe 9 ''count''] handoff_s2"

definition handoff_s3 :: store where
  "handoff_s3 = executeListeners handoff_t2 1 [(''count'', JNum 1)] None"

text \<open>The store with the transform on \<^verbatim>\<open>count\<close> and a hook that returns \<^verbatim>\<open>{count: 5}\<close>.\<close>

definition alias_store :: store where
  "alias_store = ripple_store\<lparr>beforeDispatch := Some (\<lambda>b ns opts. HObject [(''count'', JNum 5)])\<rparr>"

text \<open>
  Two runs from a new store. In the first, batches 1 and 2 are dispatched in hand-off
  mode, batch 1 is notified with the options omitted, and batch 3 is dispatched with
  hand-off mode off. In the second, batch 1 is dispatched in hand-off mode and notified
  with options given.
\<close>

definition example_run :: "store \<times> nat set" where
  "example_run =
     run [Subscribe 8 ''count'', SetTakeOverDispatch True, Dispatch 1 Omitted, Dispatch 3 Omitted,
          ExecuteListeners 1 [(''count'', JNum 1)] None, SetTakeOverDispatch False, Dispatch 4 Omitted]
       (new_Store example_heap 5 0 Map.empty, {})"

definition explicit_options_run :: "store \<times> nat set" where
  "explicit_options_run =
     run [Subscribe 8 ''count'', SetTakeOverDispatch True, Dispatch 1 Omitted,
          ExecuteListeners 1 [(''count'', JNum 1)] (Some \<lparr>check = Some False, onChanged = None\<rparr>)]
       (new_Store example_heap 5 0 Map.empty, {})"

section \<open>Objects\<close>

lemma set_keys: "set (keys ob) = fst ` set ob"
  by (simp add: keys_def)

lemma keys_Nil: "keys [] = []"
  by (simp add: keys_def)

lemma in_keys_iff: "k \<in> set (keys ob) \<longleftrightarrow> map_of ob k \<noteq> None"
  by (simp add: set_keys map_of_eq_None_iff)

lemma map_of_set_prop: "map_of (set_prop ob k v) = (map_of ob)(k \<mapsto> v)"
  by (simp add: set_prop_def update_conv')

lemma set_keys_set_prop: "set (keys (set_prop ob k v)) = insert k (set (keys ob))"
  by (simp add: set_keys set_prop_def dom_update)

lemma get_prop_set_prop: "get_prop (set_prop ob k v) k' = (if k' = k then v else get_prop ob k')"
  by (simp add: get_prop_def map_of_set_prop)

lemma map_of_fold_set_prop:
  "map_of (fold (\<lambda>k t. set_prop t k (g k)) ks t) k =
     (if k \<in> set ks then Some (g k) else map_of t k)"
  by (induction ks arbitrary: t) (auto simp: map_of_set_prop)

lemma map_of_assign:
  "map_of (assign target source) k =
     (if k \<in> set (keys source) then Some (get_prop source k) else map_of target k)"
  by (simp add: assign_def map_of_fold_set_prop)

lemma set_keys_assign: "set (keys (assign target source)) = set (keys target) \<union> set (keys source)"
  by (auto simp: in_keys_iff map_of_assign)

lemma get_prop_assign:
  "get_prop (assign target source) k =
     (if k \<in> set (keys source) then get_prop source k else get_prop target k)"
  by (simp add: get_prop_def map_of_assign)

lemma assign_Nil: "assign target [] = target"
  by (simp add: assign_def keys_def)

section \<open>The per-key loop and the notification pass, as traces\<close>

lemma changed_step_trace: "changed_step (s\<lparr>trace := t\<rparr>) n oh = changed_step s n oh"
  by (intro ext) (simp add: changed_step_def dispatch_key_def Let_def split: option.splits)

lemma action_events_trace: "action_events (s\<lparr>trace := t\<rparr>) n ks = action_events s n ks"
  by (simp add: action_events_def cong: option.case_cong)

lemma action_events_Cons: "action_events s n (k # ks) = action_events s n [k] @ action_events s n ks"
  by (simp add: action_events_def)

lemma dispatch_key_eq:
  "dispatch_key n oh k (s, c) = (s\<lparr>trace := trace s @ action_events s n [k]\<rparr>, changed_step s n oh k c)"
  by (simp add: dispatch_key_def changed_step_def action_events_def emit_def Let_def split: option.splits)

lemma fold_dispatch_key:
  "fold (dispatch_key n oh) ks (s, c) =
     (s\<lparr>trace := trace s @ action_events s n ks\<rparr>, fold (changed_step s n oh) ks c)"
proof (induction ks arbitrary: s c)
  case Nil
  show ?case by (simp add: action_events_def)
next
  case (Cons k ks)
  have "fold (dispatch_key n oh) (k # ks) (s, c) = fold (dispatch_key n oh) ks (dispatch_key n oh k (s, c))"
    by simp
  also have "\<dots> = fold (dispatch_key n oh) ks
                     (s\<lparr>trace := trace s @ action_events s n [k]\<rparr>, changed_step s n oh k c)"
    by (simp only: dispatch_key_eq)
  also have "\<dots> = (s\<lparr>trace := trace s @ action_events s n (k # ks)\<rparr>,
                    fold (changed_step s n oh) (k # ks) c)"
    by (simp add: Cons.IH changed_step_trace action_events_trace action_events_Cons [of s n k ks])
  finally show ?case .
qed

lemma fold_emit: "fold (\<lambda>l. emit (f l)) ls s = s\<lparr>trace := trace s @ map f ls\<rparr>"
  by (induction ls arbitrary: s) (simp_all add: emit_def)

lemma call_listeners_eq:
  "call_listeners k s = s\<lparr>trace := trace s @ listener_events (listeners s) [k]\<rparr>"
  by (simp add: call_listeners_def listener_events_def fold_emit split: option.splits)

lemma listener_events_Cons:
  "listener_events reg (k # ks) = listener_events reg [k] @ listener_events reg ks"
  by (simp add: listener_events_def)

lemma fold_call_listeners:
  "fold call_listeners ks s = s\<lparr>trace := trace s @ listener_events (listeners s) ks\<rparr>"
proof (induction ks arbitrary: s)
  case Nil
  show ?case by (simp add: listener_events_def)
next
  case (Cons k ks)
  have "fold call_listeners (k # ks) s = fold call_listeners ks (call_listeners k s)"
    by simp
  also have "\<dots> = fold call_listeners ks (s\<lparr>trace := trace s @ listener_events (listeners s) [k]\<rparr>)"
    by (simp only: call_listeners_eq)
  also have "\<dots> = s\<lparr>trace := trace s @ listener_events (listeners s) (k # ks)\<rparr>"
    by (simp add: Cons.IH listener_events_Cons [of "listeners s" k ks])
  finally show ?case .
qed

lemma executeListeners_given:
  "executeListeners s b c (Some opts) =
     s\<lparr>trace := trace s @ listener_events (listeners s) (keys c) @ completion_events s b c (Some opts)\<rparr>"
  by (simp add: executeListeners_def fold_call_listeners completion_events_def emit_def Let_def
      split: option.splits)

lemma executeListeners_omitted:
  "executeListeners s b c None =
     s\<lparr>dispatchBatchOptionsMap := (dispatchBatchOptionsMap s)(b := None),
       trace := trace s @ listener_events (listeners s) (keys c)
                @ completion_events s b c (dispatchBatchOptionsMap s b)\<rparr>"
  by (simp add: executeListeners_def fold_call_listeners completion_events_def emit_def Let_def
      split: option.splits)

lemma dispatch_apply_handoff:
  "takeOverDispatch s \<Longrightarrow>
   dispatch_apply n ks oh s =
     s\<lparr>trace := trace s @ action_events s n ks,
       heap := (heap s)(next_addr s := assign (assign [] (heap s (state s))) (fold (changed_step s n oh) ks [])),
       state := next_addr s,
       next_addr := Suc (next_addr s),
       dispatchBatchOptionsMap := (dispatchBatchOptionsMap s)(dispatchBatch s \<mapsto> oh)\<rparr>"
  by (simp add: dispatch_apply_def fold_dispatch_key Let_def)

lemma dispatch_apply_inline:
  "\<not> takeOverDispatch s \<Longrightarrow>
   dispatch_apply n ks oh s =
     s\<lparr>trace := trace s @ action_events s n ks
                @ listener_events (listeners s) (keys (fold (changed_step s n oh) ks []))
                @ completion_events (s\<lparr>state := next_addr s\<rparr>) (dispatchBatch s) (fold (changed_step s n oh) ks []) (Some oh),
       heap := (heap s)(next_addr s := assign (assign [] (heap s (state s))) (fold (changed_step s n oh) ks [])),
       state := next_addr s,
       next_addr := Suc (next_addr s)\<rparr>"
  by (simp add: dispatch_apply_def fold_dispatch_key Let_def executeListeners_given completion_events_def
      split: option.splits)

section \<open>One dispatch, as a whole\<close>

lemma entered_fields:
  "state (entered s n options) = state s"
  "next_addr (entered s n options) = next_addr s"
  "actions (entered s n options) = actions s"
  "listeners (entered s n options) = listeners s"
  "takeOverDispatch (entered s n options) = takeOverDispatch s"
  "afterDispatch (entered s n options) = afterDispatch s"
  "dispatchBatch (entered s n options) = Suc (dispatchBatch s)"
  "dispatchBatchOptionsMap (entered s n options) = dispatchBatchOptionsMap s"
  "trace (entered s n options) = trace s @ hook_events s n (effective_options s options)"
  by (simp_all add: entered_def dispatch_enter_def hook_events_def emit_def Let_def
      split: option.splits hook_result.splits)

lemma entered_heap_other: "a \<noteq> n \<Longrightarrow> heap (entered s n options) a = heap s a"
  by (simp add: entered_def dispatch_enter_def emit_def Let_def
      split: option.splits hook_result.splits)

lemma dispatch_vetoed: "vetoed s n options \<Longrightarrow> dispatch s n options = entered s n options"
  by (simp add: dispatch_def vetoed_def entered_def Let_def case_prod_beta)

lemma dispatch_proceeds:
  "\<not> vetoed s n options \<Longrightarrow>
   dispatch s n options =
     dispatch_apply n (keys (heap s n)) (effective_options s options) (entered s n options)"
  by (simp add: dispatch_def vetoed_def entered_def Let_def case_prod_beta)

lemma dispatch_changedState_fold:
  "dispatch_changedState s n options =
     fold (changed_step (entered s n options) n (effective_options s options)) (keys (heap s n)) []"
  by (simp add: dispatch_changedState_def fold_dispatch_key)

lemma vetoed_iff:
  "vetoed s n options \<longleftrightarrow>
     (\<exists>hook. beforeDispatch s = Some hook \<and>
        hook (Suc (dispatchBatch s)) (heap s n) (effective_options s options) = HBool False)"
  by (auto simp: vetoed_def dispatch_enter_def Let_def split: option.splits hook_result.splits)

lemma dispatch_new_events:
  "new_events s (dispatch s n options) =
     hook_events s n (effective_options s options) @
     (if vetoed s n options then []
      else action_events (entered s n options) n (keys (heap s n)) @
        (if takeOverDispatch s then []
         else listener_events (listeners s) (keys (dispatch_changedState s n options)) @
              completion_events ((entered s n options)\<lparr>state := next_addr s\<rparr>) (Suc (dispatchBatch s))
                (dispatch_changedState s n options) (Some (effective_options s options))))"
  by (simp add: new_events_def dispatch_vetoed dispatch_proceeds entered_fields
      dispatch_apply_handoff dispatch_apply_inline dispatch_changedState_fold)

subsection \<open>The new state object\<close>

lemma dispatch_state:
  "\<not> vetoed s n options \<Longrightarrow> state (dispatch s n options) = next_addr s"
  by (cases "takeOverDispatch s")
    (simp_all add: dispatch_proceeds dispatch_apply_handoff dispatch_apply_inline entered_fields)

lemma dispatch_next_addr:
  "\<not> vetoed s n options \<Longrightarrow> next_addr (dispatch s n options) = Suc (next_addr s)"
  by (cases "takeOverDispatch s")
    (simp_all add: dispatch_proceeds dispatch_apply_handoff dispatch_apply_inline entered_fields)

lemma dispatch_heap:
  "\<not> vetoed s n options \<Longrightarrow>
   heap (dispatch s n options) =
     (heap (entered s n options))
       (next_addr s := assign (assign [] (heap (entered s n options) (state s)))
                         (dispatch_changedState s n options))"
  by (cases "takeOverDispatch s")
    (simp_all add: dispatch_proceeds dispatch_apply_handoff dispatch_apply_inline entered_fields
      dispatch_changedState_fold)

lemma map_of_copy: "map_of (assign [] ob) = map_of ob"
  by (rule ext) (simp add: map_of_assign in_keys_iff get_prop_def split: option.splits)

lemma keys_empty_iff: "keys ob = [] \<longleftrightarrow> ob = []"
  by (simp add: keys_def)

subsection \<open>Which listeners are called\<close>

lemma ListenerCall_in_listener_events:
  "ListenerCall K l \<in> set (listener_events reg ks) \<longleftrightarrow>
     K \<in> set ks \<and> (case reg K of Some ls \<Rightarrow> l \<in> set ls | None \<Rightarrow> False)"
  by (induction ks) (auto simp: listener_events_def split: option.splits)

lemma ListenerCall_notin_others:
  "ListenerCall K l \<notin> set (hook_events s n oh)"
  "ListenerCall K l \<notin> set (action_events s n ks)"
  "ListenerCall K l \<notin> set (completion_events s b c opts)"
  by (auto simp: hook_events_def action_events_def completion_events_def split: option.splits)

lemma executeListeners_new_events:
  "new_events s (executeListeners s b c opts) =
     listener_events (listeners s) (keys c) @
     completion_events s b c (case opts of Some given \<Rightarrow> Some given | None \<Rightarrow> dispatchBatchOptionsMap s b)"
  by (cases opts) (simp_all add: new_events_def executeListeners_given executeListeners_omitted)

lemma dispatch_ListenerCall:
  "ListenerCall K l \<in> set (new_events s (dispatch s n options)) \<longleftrightarrow>
     \<not> vetoed s n options \<and> \<not> takeOverDispatch s \<and>
     K \<in> set (keys (dispatch_changedState s n options)) \<and> subscribed s K l"
  by (simp add: dispatch_new_events ListenerCall_notin_others ListenerCall_in_listener_events
      subscribed_def)

subsection \<open>The keys and values of the changed-set\<close>

lemma keys_changed_step_mono: "set (keys c) \<subseteq> set (keys (changed_step s n oh k c))"
  by (auto simp: changed_step_def dispatch_key_def Let_def set_keys_assign set_keys_set_prop
      split: option.splits)

lemma keys_fold_changed_step_mono: "set (keys c) \<subseteq> set (keys (fold (changed_step s n oh) ks c))"
proof (induction ks arbitrary: c)
  case Nil
  show ?case by simp
next
  case (Cons k ks)
  have "set (keys c) \<subseteq> set (keys (changed_step s n oh k c))"
    by (rule keys_changed_step_mono)
  also have "\<dots> \<subseteq> set (keys (fold (changed_step s n oh) ks (changed_step s n oh k c)))"
    by (rule Cons.IH)
  finally show ?case by simp
qed

lemma changed_step_action:
  "actions s k = Some f \<Longrightarrow>
   changed_step s n oh k c = assign c (f (get_prop (heap s n) k) (heap s (state s)))"
  by (simp add: changed_step_def dispatch_key_def Let_def)

lemma action_keys_in_fold:
  assumes "k \<in> set ks" and "actions s k = Some f"
  shows "set (keys (f (get_prop (heap s n) k) (heap s (state s))))
           \<subseteq> set (keys (fold (changed_step s n oh) ks c))"
  using assms(1)
proof (induction ks arbitrary: c)
  case Nil
  then show ?case by simp
next
  case (Cons a ks)
  show ?case
  proof (cases "a = k")
    case True
    have "set (keys (f (get_prop (heap s n) k) (heap s (state s))))
            \<subseteq> set (keys (changed_step s n oh k c))"
      by (simp add: changed_step_action [OF assms(2)] set_keys_assign)
    also have "\<dots> \<subseteq> set (keys (fold (changed_step s n oh) ks (changed_step s n oh k c)))"
      by (rule keys_fold_changed_step_mono)
    finally show ?thesis using True by simp
  next
    case False
    with Cons.prems have "k \<in> set ks" by simp
    from Cons.IH [OF this] show ?thesis by simp
  qed
qed

lemma map_of_changed_step_other:
  assumes "k \<noteq> X"
    and "\<And>f. actions s k = Some f \<Longrightarrow> X \<notin> set (keys (f (get_prop (heap s n) k) (heap s (state s))))"
  shows "map_of (changed_step s n oh k c) X = map_of c X"
  using assms
  by (auto simp: changed_step_def dispatch_key_def Let_def map_of_assign map_of_set_prop
      split: option.splits)

lemma map_of_changed_step_checked:
  assumes "actions s X = None" and "check oh = Some True"
  shows "map_of (changed_step s n oh X c) X =
           (if strict_eq (get_prop (heap s n) X) (get_prop (heap s (state s)) X)
            then map_of c X else Some (get_prop (heap s n) X))"
  using assms
  by (simp add: changed_step_def dispatch_key_def Let_def map_of_set_prop)

lemma map_of_fold_checked:
  assumes "actions s X = None" and "check oh = Some True"
    and "\<And>k f. k \<in> set ks \<Longrightarrow> actions s k = Some f \<Longrightarrow>
           X \<notin> set (keys (f (get_prop (heap s n) k) (heap s (state s))))"
  shows "map_of (fold (changed_step s n oh) ks c) X =
           (if X \<in> set ks \<and> \<not> strict_eq (get_prop (heap s n) X) (get_prop (heap s (state s)) X)
            then Some (get_prop (heap s n) X) else map_of c X)"
  using assms(3)
proof (induction ks arbitrary: c)
  case Nil
  show ?case by simp
next
  case (Cons k ks)
  have ih: "map_of (fold (changed_step s n oh) ks c') X =
           (if X \<in> set ks \<and> \<not> strict_eq (get_prop (heap s n) X) (get_prop (heap s (state s)) X)
            then Some (get_prop (heap s n) X) else map_of c' X)" for c'
    by (rule Cons.IH) (simp add: Cons.prems)
  show ?case
  proof (cases "k = X")
    case True
    then show ?thesis
      by (simp add: ih map_of_changed_step_checked [OF assms(1,2)])
  next
    case False
    have "map_of (changed_step s n oh k c) X = map_of c X"
      by (rule map_of_changed_step_other [OF False]) (simp add: Cons.prems)
    with False show ?thesis
      by (auto simp: ih)
  qed
qed

subsection \<open>What a dispatch applies and reports\<close>

lemma AfterDispatchCall_notin_others:
  "AfterDispatchCall h c \<notin> set (hook_events s n oh)"
  "AfterDispatchCall h c \<notin> set (action_events s n ks)"
  "AfterDispatchCall h c \<notin> set (listener_events reg ks)"
  by (auto simp: hook_events_def action_events_def listener_events_def split: option.splits)

lemma AfterDispatchCall_in_completion_events:
  "AfterDispatchCall h c \<in> set (completion_events s b c' opts) \<longleftrightarrow> afterDispatch s = Some h \<and> c = c'"
  by (auto simp: completion_events_def split: option.splits)

lemma dispatch_AfterDispatchCall:
  "AfterDispatchCall h c \<in> set (new_events s (dispatch s n options)) \<longleftrightarrow>
     \<not> vetoed s n options \<and> \<not> takeOverDispatch s \<and>
     afterDispatch s = Some h \<and> c = dispatch_changedState s n options"
  by (auto simp: dispatch_new_events AfterDispatchCall_notin_others
      AfterDispatchCall_in_completion_events entered_fields)

lemma dispatch_new_state:
  "\<not> vetoed s n options \<Longrightarrow>
   heap (dispatch s n options) (state (dispatch s n options)) =
     assign (assign [] (heap (entered s n options) (state s))) (dispatch_changedState s n options)"
  by (simp add: dispatch_state dispatch_heap)

lemma dispatch_changedState_single:
  assumes "actions s X = Some f" and "keys (heap s n) = [X]"
  shows "dispatch_changedState s n options =
           assign [] (f (get_prop (heap (entered s n options) n) X) (heap (entered s n options) (state s)))"
proof -
  have a: "actions (entered s n options) X = Some f"
    using assms(1) by (simp add: entered_fields)
  show ?thesis
    by (simp add: dispatch_changedState_fold assms(2) changed_step_action [OF a] entered_fields)
qed

subsection \<open>A dispatch in hand-off mode\<close>

lemma dispatch_handoff_eq:
  assumes "takeOverDispatch s" and "\<not> vetoed s n options"
  shows "dispatch s n options =
     (entered s n options)
       \<lparr>trace := trace s @ hook_events s n (effective_options s options)
                  @ action_events (entered s n options) n (keys (heap s n)),
        heap := (heap (entered s n options))
                  (next_addr s := assign (assign [] (heap (entered s n options) (state s)))
                                    (dispatch_changedState s n options)),
        state := next_addr s,
        next_addr := Suc (next_addr s),
        dispatchBatchOptionsMap :=
          (dispatchBatchOptionsMap s)(Suc (dispatchBatch s) \<mapsto> effective_options s options)\<rparr>"
  using assms
  by (simp add: dispatch_proceeds dispatch_apply_handoff entered_fields dispatch_changedState_fold)

subsection \<open>The pending-options map along a run\<close>

lemma dispatch_map:
  "dispatchBatchOptionsMap (dispatch s n options) =
     (if takeOverDispatch s \<and> \<not> vetoed s n options
      then (dispatchBatchOptionsMap s)(Suc (dispatchBatch s) \<mapsto> effective_options s options)
      else dispatchBatchOptionsMap s)"
proof (cases "vetoed s n options")
  case True
  then show ?thesis by (simp add: dispatch_vetoed entered_fields)
next
  case False
  then show ?thesis
    by (cases "takeOverDispatch s")
      (simp_all add: dispatch_proceeds dispatch_apply_handoff dispatch_apply_inline entered_fields)
qed

lemma executeListeners_map:
  "dispatchBatchOptionsMap (executeListeners s b c opts) =
     (case opts of Some given \<Rightarrow> dispatchBatchOptionsMap s
      | None \<Rightarrow> (dispatchBatchOptionsMap s)(b := None))"
  by (cases opts) (simp_all add: executeListeners_given executeListeners_omitted)

lemma apply_op_dom:
  "dom (dispatchBatchOptionsMap s) = out \<Longrightarrow>
   dom (dispatchBatchOptionsMap (apply_op p s)) = track p s out"
proof (cases p)
  case (Dispatch n options)
  then show "dom (dispatchBatchOptionsMap s) = out \<Longrightarrow> ?thesis"
    by (auto simp: dispatch_map)
next
  case (ExecuteListeners b c opts)
  then show "dom (dispatchBatchOptionsMap s) = out \<Longrightarrow> ?thesis"
    by (cases opts) (auto simp: executeListeners_map)
qed (auto simp: subscribe_def unsubscribe_def staticUpdateState_def Let_def split: option.splits)

lemma run_dom:
  "dom (dispatchBatchOptionsMap s) = out \<Longrightarrow>
   dom (dispatchBatchOptionsMap (fst (run ops (s, out)))) = snd (run ops (s, out))"
proof (induction ops arbitrary: s out)
  case Nil
  then show ?case by simp
next
  case (Cons p ops)
  from Cons.prems have "dom (dispatchBatchOptionsMap (apply_op p s)) = track p s out"
    by (rule apply_op_dom)
  from Cons.IH [OF this] show ?case by simp
qed

subsection \<open>What the transforms receive\<close>

lemma ActionCall_in_action_events:
  "ActionCall k v a ob \<in> set (action_events s n ks) \<Longrightarrow> a = state s \<and> ob = heap s (state s)"
  by (induction ks) (auto simp: action_events_def split: option.splits)

lemma ActionCall_notin_others:
  "ActionCall k v a ob \<notin> set (hook_events s n oh)"
  "ActionCall k v a ob \<notin> set (listener_events reg ks)"
  "ActionCall k v a ob \<notin> set (completion_events s b c opts)"
  by (auto simp: hook_events_def listener_events_def completion_events_def split: option.splits)

lemma dispatch_ActionCall:
  "ActionCall k v a ob \<in> set (new_events s (dispatch s n options)) \<Longrightarrow>
   a = state s \<and> ob = heap (entered s n options) (state s)"
  using ActionCall_in_action_events [of k v a ob "entered s n options" n "keys (heap s n)"]
  by (auto simp: dispatch_new_events ActionCall_notin_others entered_fields split: if_splits)

subsection \<open>Invariants of a run\<close>

lemma apply_op_allocated:
  "state s < next_addr s \<Longrightarrow> state (apply_op p s) < next_addr (apply_op p s)"
proof (cases p)
  case (Dispatch n options)
  then show "state s < next_addr s \<Longrightarrow> ?thesis"
    by (cases "vetoed s n options")
      (simp_all add: dispatch_vetoed entered_fields dispatch_state dispatch_next_addr)
next
  case (ExecuteListeners b c opts)
  then show "state s < next_addr s \<Longrightarrow> ?thesis"
    by (cases opts) (simp_all add: executeListeners_given executeListeners_omitted)
qed (auto simp: subscribe_def unsubscribe_def staticUpdateState_def Let_def split: option.splits)

lemma fst_run: "fst (run ops (s, out)) = fold apply_op ops s"
  by (induction ops arbitrary: s out) simp_all

lemma after_ops_fold: "after_ops ops s = fold apply_op ops s"
  by (simp add: after_ops_def fst_run)

lemma dispatch_batch: "dispatchBatch (dispatch s n options) = Suc (dispatchBatch s)"
proof (cases "vetoed s n options")
  case True
  then show ?thesis by (simp add: dispatch_vetoed entered_fields)
next
  case False
  then show ?thesis
    by (cases "takeOverDispatch s")
      (simp_all add: dispatch_proceeds dispatch_apply_handoff dispatch_apply_inline entered_fields)
qed

lemma executeListeners_batch: "dispatchBatch (executeListeners s b c opts) = dispatchBatch s"
  by (cases opts) (simp_all add: executeListeners_given executeListeners_omitted)

lemma apply_op_batch_mono: "dispatchBatch s \<le> dispatchBatch (apply_op p s)"
  by (cases p)
    (auto simp: dispatch_batch executeListeners_batch subscribe_def unsubscribe_def
      staticUpdateState_def Let_def split: option.splits)

lemma apply_op_map_keep:
  assumes "b \<le> dispatchBatch s" and "\<forall>c. p \<noteq> ExecuteListeners b c None"
  shows "dispatchBatchOptionsMap (apply_op p s) b = dispatchBatchOptionsMap s b"
proof (cases p)
  case (Dispatch n options)
  with assms(1) show ?thesis by (simp add: dispatch_map)
next
  case (ExecuteListeners b' c opts)
  with assms(2) show ?thesis by (cases opts) (auto simp: executeListeners_map)
qed (auto simp: subscribe_def unsubscribe_def staticUpdateState_def Let_def split: option.splits)

lemma apply_op_map_None:
  assumes "b \<le> dispatchBatch s" and "dispatchBatchOptionsMap s b = None"
  shows "dispatchBatchOptionsMap (apply_op p s) b = None"
proof (cases p)
  case (Dispatch n options)
  with assms show ?thesis by (simp add: dispatch_map)
next
  case (ExecuteListeners b' c opts)
  with assms(2) show ?thesis by (cases opts) (auto simp: executeListeners_map)
qed (auto simp: assms(2) subscribe_def unsubscribe_def staticUpdateState_def Let_def split: option.splits)

lemma after_ops_map_keep:
  assumes "b \<le> dispatchBatch s" and "\<forall>p \<in> set ops. \<forall>c. p \<noteq> ExecuteListeners b c None"
  shows "dispatchBatchOptionsMap (after_ops ops s) b = dispatchBatchOptionsMap s b
         \<and> b \<le> dispatchBatch (after_ops ops s)"
  using assms
proof (induction ops arbitrary: s)
  case Nil
  then show ?case by (simp add: after_ops_fold)
next
  case (Cons p ops)
  have 1: "b \<le> dispatchBatch (apply_op p s)"
    using Cons.prems(1) apply_op_batch_mono [of s p] by simp
  have 2: "dispatchBatchOptionsMap (apply_op p s) b = dispatchBatchOptionsMap s b"
    using Cons.prems by (simp add: apply_op_map_keep)
  from Cons.IH [OF 1] Cons.prems(2) 2 show ?case
    by (simp add: after_ops_fold)
qed

lemma after_ops_map_None:
  assumes "b \<le> dispatchBatch s" and "dispatchBatchOptionsMap s b = None"
  shows "dispatchBatchOptionsMap (after_ops ops s) b = None"
  using assms
proof (induction ops arbitrary: s)
  case Nil
  then show ?case by (simp add: after_ops_fold)
next
  case (Cons p ops)
  have 1: "b \<le> dispatchBatch (apply_op p s)"
    using Cons.prems(1) apply_op_batch_mono [of s p] by simp
  have 2: "dispatchBatchOptionsMap (apply_op p s) b = None"
    using Cons.prems by (simp add: apply_op_map_None)
  from Cons.IH [OF 1 2] show ?case
    by (simp add: after_ops_fold)
qed

subsection \<open>Evaluation\<close>

text \<open>The definitions that evaluate a concrete run.\<close>

lemmas store_eval =
  example_store_def example_heap_def example_actions_def new_Store_def subscribe_def
  dispatch_def dispatch_enter_def dispatch_apply_def dispatch_key_def executeListeners_def
  call_listeners_def effective_options_def merge_options_def emit_def new_events_def
  vetoed_def entered_def dispatch_changedState_def subscribed_def
  hook_events_def action_events_def completion_events_def listener_events_def
  keys_def get_prop_def set_prop_def assign_def strict_eq_def Let_def

section \<open>Reading the state\<close>

text \<open>
  C10. For a field key that is truthy as a JavaScript value (a non-empty string),
  \<^verbatim>\<open>getState(k)\<close> returns the current value of field \<open>k\<close>; for the falsy key \<^verbatim>\<open>""\<close> it
  returns the whole state object (the reference held in \<^verbatim>\<open>this.state\<close>), whatever the
  value of a field of that name.
\<close>

theorem getState_falsy_key:
  "(k \<noteq> [] \<longrightarrow> getState s (Some k) = get_prop (heap s (state s)) k) \<and>
   (k \<noteq> [] \<and> map_of (heap s (state s)) k = Some v \<longrightarrow> getState s (Some k) = v) \<and>
   getState s (Some []) = JObject (state s)"
  by (simp add: getState_def get_prop_def)

theorem getState_falsy_key_witness:
  "''count'' \<noteq> [] \<and> map_of (heap example_store (state example_store)) ''count'' = Some (JNum 0) \<and>
   getState example_store (Some ''count'') = JNum 0 \<and>
   getState example_store (Some []) = JObject 0"
  using getState_falsy_key [of "''count''" example_store "JNum 0"]
  by (simp add: example_store_def example_heap_def new_Store_def subscribe_def getState_def)

section \<open>The veto\<close>

text \<open>
  C7. When the registered pre-dispatch hook returns \<^verbatim>\<open>false\<close>, the dispatch changes
  nothing but the batch counter, which grows by exactly one: the stored state (the
  reference and every object of the heap), the subscriber registry and the
  pending-options map are as before, and the only call made is the call of the hook
  itself, so no transform runs, no listener is invoked and the post-dispatch hook is not
  invoked.
\<close>

theorem veto_changes_only_batch:
  assumes "beforeDispatch s = Some hook"
    and "hook (Suc (dispatchBatch s)) (heap s n) (effective_options s options) = HBool False"
  shows "dispatch s n options =
           s\<lparr>dispatchBatch := Suc (dispatchBatch s),
             trace := trace s @
               [BeforeDispatchCall (Suc (dispatchBatch s)) (heap s n) (effective_options s options)]\<rparr> \<and>
         state (dispatch s n options) = state s \<and>
         heap (dispatch s n options) = heap s \<and>
         listeners (dispatch s n options) = listeners s \<and>
         dispatchBatchOptionsMap (dispatch s n options) = dispatchBatchOptionsMap s \<and>
         dispatchBatch (dispatch s n options) = Suc (dispatchBatch s) \<and>
         new_events s (dispatch s n options) =
           [BeforeDispatchCall (Suc (dispatchBatch s)) (heap s n) (effective_options s options)]"
  using assms
  by (simp add: dispatch_def dispatch_enter_def new_events_def emit_def Let_def)

theorem veto_changes_only_batch_witness:
  "beforeDispatch veto_store = Some (\<lambda>b ns opts. HBool False) \<and>
   state (dispatch veto_store 1 Omitted) = 0 \<and>
   heap (dispatch veto_store 1 Omitted) 0 = [(''count'', JNum 0), (''name'', JStr ''a'')] \<and>
   dispatchBatch veto_store = 0 \<and>
   dispatchBatch (dispatch veto_store 1 Omitted) = 1 \<and>
   new_events veto_store (dispatch veto_store 1 Omitted) =
     [BeforeDispatchCall 1 [(''count'', JNum 1)] \<lparr>check = Some False, onChanged = None\<rparr>]"
  using veto_changes_only_batch [of veto_store "\<lambda>b ns opts. HBool False" 1 Omitted]
  by (simp add: veto_store_def example_store_def example_heap_def new_Store_def subscribe_def
      effective_options_def dispatch_def dispatch_enter_def emit_def new_events_def)

section \<open>The pre-dispatch hook's object\<close>

text \<open>
  C1 says that a key \<open>Y\<close> returned by the pre-dispatch hook and absent from the partial
  state of the call enters the changed-set. The code lists the keys to resolve (line 111)
  before it merges the hook's object into the partial state (line 125), so such a key is
  written into the caller's object and then never resolved. Here the store
  \<^verbatim>\<open>{count: 0, name: "a"}\<close> has a hook returning \<^verbatim>\<open>{name: "b"}\<close> and \<^verbatim>\<open>{count: 1}\<close> is
  dispatched: the changed-set is \<^verbatim>\<open>{count: 1}\<close>, the new state keeps \<^verbatim>\<open>name: "a"\<close>, the
  caller's object has become \<^verbatim>\<open>{count: 1, name: "b"}\<close>, and the listener on \<^verbatim>\<open>name\<close> is
  not called.
\<close>

theorem hook_added_key_dropped:
  "\<not> vetoed augment_store 1 Omitted \<and>
   ''name'' \<notin> set (keys (heap augment_store 1)) \<and>
   dispatch_changedState augment_store 1 Omitted = [(''count'', JNum 1)] \<and>
   heap (dispatch augment_store 1 Omitted) (state (dispatch augment_store 1 Omitted)) =
     [(''count'', JNum 1), (''name'', JStr ''a'')] \<and>
   heap (dispatch augment_store 1 Omitted) 1 = [(''count'', JNum 1), (''name'', JStr ''b'')] \<and>
   new_events augment_store (dispatch augment_store 1 Omitted) =
     [BeforeDispatchCall 1 [(''count'', JNum 1)] \<lparr>check = Some False, onChanged = None\<rparr>,
      ListenerCall ''count'' 8,
      AfterDispatchCall 0 [(''count'', JNum 1)]]"
  by (simp add: augment_store_def store_eval)

section \<open>The identity of the state object\<close>

text \<open>
  C2 as stated, that a dispatch which is not vetoed and has an empty changed-set leaves
  the stored reference as it was, fails: dispatching the empty object \<^verbatim>\<open>{}\<close> on the
  example store is not vetoed, changes no key, and stores a new object.
\<close>

theorem state_identity_counterexample:
  "\<not> vetoed example_store 2 Omitted \<and>
   keys (dispatch_changedState example_store 2 Omitted) = [] \<and>
   state (dispatch example_store 2 Omitted) \<noteq> state example_store"
  by (simp add: store_eval)

text \<open>
  C2, amended. Every dispatch that is not vetoed stores a newly allocated object (line
  143), so the reference after the dispatch is never the one before it; when the
  changed-set has no keys, the new object has the same fields with the same values as the
  old one. The state object of the store is an allocated object: \<open>state s < next_addr s\<close>.
\<close>

theorem state_replaced_by_fresh_object:
  assumes "\<not> vetoed s n options" and "state s < next_addr s"
  shows "state (dispatch s n options) = next_addr s \<and>
         state (dispatch s n options) \<noteq> state s \<and>
         (keys (dispatch_changedState s n options) = [] \<longrightarrow>
            map_of (heap (dispatch s n options) (state (dispatch s n options))) =
            map_of (heap (dispatch s n options) (state s)))"
  using assms
  by (auto simp: dispatch_state dispatch_heap keys_empty_iff assign_Nil map_of_copy)

theorem state_replaced_by_fresh_object_witness:
  "\<not> vetoed example_store 2 Omitted \<and> state example_store < next_addr example_store \<and>
   keys (dispatch_changedState example_store 2 Omitted) = [] \<and>
   state (dispatch example_store 2 Omitted) = 5 \<and>
   state example_store = 0 \<and>
   map_of (heap (dispatch example_store 2 Omitted) 5) = map_of (heap (dispatch example_store 2 Omitted) 0)"
  using state_replaced_by_fresh_object [of example_store 2 Omitted]
  by (simp add: store_eval)

section \<open>Notification\<close>

text \<open>
  C3. In a notification pass, a listener \<open>l\<close> registered on field \<open>K\<close> is called for
  \<open>K\<close> if and only if \<open>K\<close> is an own key of the changed-field record of the pass, and a
  call for \<open>K\<close> is made only to a listener registered on \<open>K\<close>. This holds for an explicit
  \<^verbatim>\<open>executeListeners\<close> call with any batch number and options, and for the pass run
  inline by a dispatch that is not in hand-off mode and not vetoed, where the record is
  the changed-set of the dispatch.
\<close>

theorem selective_notification:
  "(ListenerCall K l \<in> set (new_events s (executeListeners s b c opts)) \<longleftrightarrow>
      K \<in> set (keys c) \<and> subscribed s K l) \<and>
   (\<not> takeOverDispatch s \<and> \<not> vetoed s n options \<longrightarrow>
      (ListenerCall K l \<in> set (new_events s (dispatch s n options)) \<longleftrightarrow>
         K \<in> set (keys (dispatch_changedState s n options)) \<and> subscribed s K l))"
  by (simp add: executeListeners_new_events dispatch_ListenerCall ListenerCall_notin_others
      ListenerCall_in_listener_events subscribed_def)

theorem selective_notification_witness:
  "\<not> takeOverDispatch example_store \<and> \<not> vetoed example_store 1 Omitted \<and>
   subscribed example_store ''count'' 8 \<and> subscribed example_store ''name'' 7 \<and>
   ''count'' \<in> set (keys (dispatch_changedState example_store 1 Omitted)) \<and>
   ''name'' \<notin> set (keys (dispatch_changedState example_store 1 Omitted)) \<and>
   ListenerCall ''count'' 8 \<in> set (new_events example_store (dispatch example_store 1 Omitted)) \<and>
   ListenerCall ''name'' 7 \<notin> set (new_events example_store (dispatch example_store 1 Omitted)) \<and>
   ListenerCall ''name'' 7 \<in> set (new_events example_store
      (executeListeners example_store 9 [(''name'', JStr ''z'')] None)) \<and>
   ListenerCall ''count'' 8 \<notin> set (new_events example_store
      (executeListeners example_store 9 [(''name'', JStr ''z'')] None))"
  using selective_notification [of "''count''" 8 example_store 9 "[(''name'', JStr ''z'')]" None 1 Omitted]
    selective_notification [of "''name''" 7 example_store 9 "[(''name'', JStr ''z'')]" None 1 Omitted]
  by (simp add: store_eval)

section \<open>Per-field resolution\<close>

text \<open>
  C4. Let \<open>X\<close> be a field with a registered transform \<open>f\<close>. The round of the per-key
  loop for \<open>X\<close> merges the whole record returned by \<open>f\<close> (called with the incoming value
  and the stored state) into \<^verbatim>\<open>changedState\<close>, whatever the options, \<open>check\<close> included,
  and whatever the current value of \<open>X\<close>. When \<open>X\<close> is a key of the dispatched partial
  state, every key of that record is a key of the changed-set, and when \<open>X\<close> is the only
  key dispatched the changed-set is that record. The changed-set is what the dispatch
  applies and reports once it is past the veto: the new state object is the old contents
  merged with it, so every key of the record is a field of the new state with the value
  the changed-set gives it; and when the store is not in hand-off mode every listener
  registered on a key of the record is called and the post-dispatch hook receives the
  changed-set.
\<close>

theorem transform_precedence:
  assumes "actions s X = Some f"
  shows "snd (dispatch_key n optionsH X (s, c)) =
           assign c (f (get_prop (heap s n) X) (heap s (state s))) \<and>
         (X \<in> set (keys (heap s n)) \<longrightarrow>
            (let r = f (get_prop (heap (entered s n options) n) X) (heap (entered s n options) (state s));
                 changed = dispatch_changedState s n options;
                 s' = dispatch s n options
             in set (keys r) \<subseteq> set (keys changed) \<and>
                (keys (heap s n) = [X] \<longrightarrow> changed = assign [] r) \<and>
                (\<not> vetoed s n options \<longrightarrow>
                   heap s' (state s') = assign (assign [] (heap (entered s n options) (state s))) changed \<and>
                   set (keys r) \<subseteq> set (keys (heap s' (state s'))) \<and>
                   (\<forall>K \<in> set (keys r). get_prop (heap s' (state s')) K = get_prop changed K) \<and>
                   (keys (heap s n) = [X] \<longrightarrow>
                      (\<forall>K \<in> set (keys r). get_prop (heap s' (state s')) K = get_prop r K)) \<and>
                   (\<not> takeOverDispatch s \<longrightarrow>
                      (\<forall>K \<in> set (keys r). \<forall>l. subscribed s K l \<longrightarrow>
                         ListenerCall K l \<in> set (new_events s s')) \<and>
                      (\<forall>h. afterDispatch s = Some h \<longrightarrow>
                         AfterDispatchCall h changed \<in> set (new_events s s'))))))"
proof -
  let ?r = "f (get_prop (heap (entered s n options) n) X) (heap (entered s n options) (state s))"
  let ?changed = "dispatch_changedState s n options"
  let ?s' = "dispatch s n options"
  have a: "actions (entered s n options) X = Some f"
    using assms by (simp add: entered_fields)
  have step: "snd (dispatch_key n optionsH X (s, c)) =
           assign c (f (get_prop (heap s n) X) (heap s (state s)))"
    using assms by (simp add: dispatch_key_def Let_def)
  have rest: "set (keys ?r) \<subseteq> set (keys ?changed) \<and>
      (keys (heap s n) = [X] \<longrightarrow> ?changed = assign [] ?r) \<and>
      (\<not> vetoed s n options \<longrightarrow>
         heap ?s' (state ?s') = assign (assign [] (heap (entered s n options) (state s))) ?changed \<and>
         set (keys ?r) \<subseteq> set (keys (heap ?s' (state ?s'))) \<and>
         (\<forall>K \<in> set (keys ?r). get_prop (heap ?s' (state ?s')) K = get_prop ?changed K) \<and>
         (keys (heap s n) = [X] \<longrightarrow>
            (\<forall>K \<in> set (keys ?r). get_prop (heap ?s' (state ?s')) K = get_prop ?r K)) \<and>
         (\<not> takeOverDispatch s \<longrightarrow>
            (\<forall>K \<in> set (keys ?r). \<forall>l. subscribed s K l \<longrightarrow>
               ListenerCall K l \<in> set (new_events s ?s')) \<and>
            (\<forall>h. afterDispatch s = Some h \<longrightarrow>
               AfterDispatchCall h ?changed \<in> set (new_events s ?s'))))"
    if x: "X \<in> set (keys (heap s n))"
  proof -
    have sub: "set (keys ?r) \<subseteq> set (keys ?changed)"
      using action_keys_in_fold [OF x a, of n "effective_options s options" "[]"]
      by (simp add: dispatch_changedState_fold entered_fields)
    have single: "?changed = assign [] ?r" if "keys (heap s n) = [X]"
      using dispatch_changedState_single [OF assms that] .
    have single_val: "get_prop ?changed K = get_prop ?r K" if "keys (heap s n) = [X]" "K \<in> set (keys ?r)" for K
      using that by (simp add: single get_prop_assign)
    have new: "heap ?s' (state ?s') =
        assign (assign [] (heap (entered s n options) (state s))) ?changed"
      if "\<not> vetoed s n options"
      using that by (rule dispatch_new_state)
    have val: "get_prop (heap ?s' (state ?s')) K = get_prop ?changed K"
      if "\<not> vetoed s n options" "K \<in> set (keys ?r)" for K
      using that sub by (auto simp: new get_prop_assign)
    have inkeys: "set (keys ?r) \<subseteq> set (keys (heap ?s' (state ?s')))" if "\<not> vetoed s n options"
      using that sub by (auto simp: new set_keys_assign)
    have lis: "ListenerCall K l \<in> set (new_events s ?s')"
      if "\<not> vetoed s n options" "\<not> takeOverDispatch s" "K \<in> set (keys ?r)" "subscribed s K l" for K l
      using that sub by (auto simp: dispatch_ListenerCall)
    have aft: "AfterDispatchCall h ?changed \<in> set (new_events s ?s')"
      if "\<not> vetoed s n options" "\<not> takeOverDispatch s" "afterDispatch s = Some h" for h
      using that by (simp add: dispatch_AfterDispatchCall)
    have single_new: "get_prop (heap ?s' (state ?s')) K = get_prop ?r K"
      if "\<not> vetoed s n options" "keys (heap s n) = [X]" "K \<in> set (keys ?r)" for K
      using that by (simp add: val single_val)
    show ?thesis
      apply (intro conjI impI ballI allI)
             apply (rule sub)
            apply (erule single)
           apply (erule new)
          apply (erule inkeys)
         apply (erule (1) val)
        apply (erule (2) single_new)
       apply (erule (3) lis)
      apply (erule (2) aft)
      done
  qed
  show ?thesis
    unfolding Let_def using step rest by blast
qed

theorem transform_precedence_witness:
  "actions ripple_store ''count'' = Some (\<lambda>v st. [(''count'', v), (''name'', JStr ''n'')]) \<and>
   ''count'' \<in> set (keys (heap ripple_store 3)) \<and>
   \<not> vetoed ripple_store 3 (Options \<lparr>check = Some True, onChanged = None\<rparr>) \<and>
   \<not> takeOverDispatch ripple_store \<and>
   snd (dispatch_key 3 \<lparr>check = Some True, onChanged = None\<rparr> ''count'' (ripple_store, [])) =
     [(''count'', JNum 5), (''name'', JStr ''n'')] \<and>
   dispatch_changedState ripple_store 3 (Options \<lparr>check = Some True, onChanged = None\<rparr>) =
     [(''count'', JNum 5), (''name'', JStr ''n'')] \<and>
   heap (dispatch ripple_store 3 (Options \<lparr>check = Some True, onChanged = None\<rparr>))
        (state (dispatch ripple_store 3 (Options \<lparr>check = Some True, onChanged = None\<rparr>))) =
     [(''count'', JNum 5), (''name'', JStr ''n'')] \<and>
   new_events ripple_store (dispatch ripple_store 3 (Options \<lparr>check = Some True, onChanged = None\<rparr>)) =
     [ActionCall ''count'' (JNum 5) 0 [(''count'', JNum 0), (''name'', JStr ''a'')],
      ListenerCall ''count'' 8, ListenerCall ''name'' 7,
      AfterDispatchCall 0 [(''count'', JNum 5), (''name'', JStr ''n'')]] \<and>
   keys (heap ripple_store 1) = [''count''] \<and>
   dispatch_changedState ripple_store 1 Omitted = [(''count'', JNum 1), (''name'', JStr ''n'')] \<and>
   heap (dispatch ripple_store 1 Omitted) (state (dispatch ripple_store 1 Omitted)) =
     [(''count'', JNum 1), (''name'', JStr ''n'')]"
  using transform_precedence [of ripple_store "''count''" "\<lambda>v st. [(''count'', v), (''name'', JStr ''n'')]"
      3 "\<lparr>check = Some True, onChanged = None\<rparr>" "[]" "Options \<lparr>check = Some True, onChanged = None\<rparr>"]
    transform_precedence [of ripple_store "''count''" "\<lambda>v st. [(''count'', v), (''name'', JStr ''n'')]"
      1 "\<lparr>check = Some True, onChanged = None\<rparr>" "[]" Omitted]
  by (simp add: ripple_store_def store_eval)

text \<open>
  C5 as stated fails: a field \<open>X\<close> without a transform whose incoming value is strictly
  equal to its current value can still be in the changed-set, and its listeners called,
  because the transform of another input field returned it. In the store with the
  transform \<^verbatim>\<open>(v, s) => ({count: v, name: "n"})\<close> on \<^verbatim>\<open>count\<close>, dispatching
  \<^verbatim>\<open>{count: 5, name: "a"}\<close> with \<^verbatim>\<open>check: true\<close> puts \<^verbatim>\<open>name\<close> in the changed-set and calls
  the listener on \<^verbatim>\<open>name\<close>.
\<close>

theorem check_semantics_counterexample:
  "check (effective_options ripple_store (Options \<lparr>check = Some True, onChanged = None\<rparr>)) = Some True \<and>
   ''name'' \<in> set (keys (heap ripple_store 3)) \<and>
   actions ripple_store ''name'' = None \<and>
   strict_eq (get_prop (heap ripple_store 3) ''name'') (get_prop (heap ripple_store (state ripple_store)) ''name'') \<and>
   ''name'' \<in> set (keys (dispatch_changedState ripple_store 3 (Options \<lparr>check = Some True, onChanged = None\<rparr>))) \<and>
   ListenerCall ''name'' 7 \<in> set (new_events ripple_store
      (dispatch ripple_store 3 (Options \<lparr>check = Some True, onChanged = None\<rparr>)))"
  by (simp add: ripple_store_def store_eval)

text \<open>
  C5, amended. In a dispatch whose effective \<open>check\<close> option is true, let \<open>X\<close> be an
  input field with no registered transform, such that no transform registered for an
  input field returns a record with the key \<open>X\<close>. The incoming value and the current
  value are the ones the per-key loop reads (after the merge of the pre-dispatch hook's
  object). If they are strictly equal, \<open>X\<close> is not a key of the changed-set, no listener
  is called for \<open>X\<close>, the record the post-dispatch hook receives has no key \<open>X\<close>, and the
  new state has for \<open>X\<close> what the old state had. If they differ, \<open>X\<close> is in the
  changed-set with the incoming value; the new state has the incoming value for \<open>X\<close>,
  and when the store is not in hand-off mode every listener registered on \<open>X\<close> is called
  and the post-dispatch hook receives the changed-set. The changed-set is what the
  dispatch applies once it is past the veto: the new state object is the old contents
  merged with it.
\<close>

theorem check_semantics:
  assumes "check (effective_options s options) = Some True"
    and "X \<in> set (keys (heap s n))"
    and "actions s X = None"
    and "\<forall>k \<in> set (keys (heap s n)). \<forall>f. actions s k = Some f \<longrightarrow>
           X \<notin> set (keys (f (get_prop (heap (entered s n options) n) k)
                               (heap (entered s n options) (state s))))"
  shows "(let incoming = get_prop (heap (entered s n options) n) X;
              current = get_prop (heap (entered s n options) (state s)) X;
              changed = dispatch_changedState s n options;
              s' = dispatch s n options
          in (strict_eq incoming current \<longrightarrow>
                X \<notin> set (keys changed) \<and>
                (\<forall>l. ListenerCall X l \<notin> set (new_events s s')) \<and>
                (\<forall>h c. AfterDispatchCall h c \<in> set (new_events s s') \<longrightarrow> X \<notin> set (keys c)) \<and>
                (\<not> vetoed s n options \<longrightarrow>
                   map_of (heap s' (state s')) X = map_of (heap (entered s n options) (state s)) X)) \<and>
             (\<not> strict_eq incoming current \<longrightarrow>
                map_of changed X = Some incoming \<and>
                (\<not> vetoed s n options \<longrightarrow>
                   map_of (heap s' (state s')) X = Some incoming \<and>
                   (\<not> takeOverDispatch s \<longrightarrow>
                      (\<forall>l. subscribed s X l \<longrightarrow> ListenerCall X l \<in> set (new_events s s')) \<and>
                      (\<forall>h. afterDispatch s = Some h \<longrightarrow>
                         AfterDispatchCall h changed \<in> set (new_events s s'))))) \<and>
             (\<not> vetoed s n options \<longrightarrow>
                heap s' (state s') =
                  assign (assign [] (heap (entered s n options) (state s))) changed))"
proof -
  let ?incoming = "get_prop (heap (entered s n options) n) X"
  let ?current = "get_prop (heap (entered s n options) (state s)) X"
  let ?changed = "dispatch_changedState s n options"
  let ?s' = "dispatch s n options"
  have m: "map_of ?changed X = (if \<not> strict_eq ?incoming ?current then Some ?incoming else None)"
    using map_of_fold_checked [of "entered s n options" X "effective_options s options"
        "keys (heap s n)" n "[]"] assms
    by (simp add: dispatch_changedState_fold entered_fields)
  have new: "heap ?s' (state ?s') =
      assign (assign [] (heap (entered s n options) (state s))) ?changed"
    if "\<not> vetoed s n options"
    using that by (rule dispatch_new_state)
  have eq_keys: "X \<notin> set (keys ?changed)" if "strict_eq ?incoming ?current"
    using that m by (simp add: in_keys_iff)
  have eq_lis: "ListenerCall X l \<notin> set (new_events s ?s')" if "strict_eq ?incoming ?current" for l
    using eq_keys [OF that] by (simp add: dispatch_ListenerCall)
  have eq_aft: "X \<notin> set (keys c)"
    if "strict_eq ?incoming ?current" "AfterDispatchCall h c \<in> set (new_events s ?s')" for h c
    using eq_keys [OF that(1)] that(2) by (simp add: dispatch_AfterDispatchCall)
  have eq_state: "map_of (heap ?s' (state ?s')) X = map_of (heap (entered s n options) (state s)) X"
    if "strict_eq ?incoming ?current" "\<not> vetoed s n options"
    using eq_keys [OF that(1)] by (simp add: new [OF that(2)] map_of_assign map_of_copy)
  have ne_changed: "map_of ?changed X = Some ?incoming" if "\<not> strict_eq ?incoming ?current"
    using that m by simp
  have ne_keys: "X \<in> set (keys ?changed)" if "\<not> strict_eq ?incoming ?current"
    using ne_changed [OF that] by (simp add: in_keys_iff)
  have ne_state: "map_of (heap ?s' (state ?s')) X = Some ?incoming"
    if "\<not> strict_eq ?incoming ?current" "\<not> vetoed s n options"
    using ne_keys [OF that(1)] ne_changed [OF that(1)]
    by (simp add: new [OF that(2)] map_of_assign get_prop_def)
  have ne_lis: "ListenerCall X l \<in> set (new_events s ?s')"
    if "\<not> strict_eq ?incoming ?current" "\<not> vetoed s n options" "\<not> takeOverDispatch s"
      "subscribed s X l" for l
    using ne_keys [OF that(1)] that(2-) by (simp add: dispatch_ListenerCall)
  have aft: "AfterDispatchCall h ?changed \<in> set (new_events s ?s')"
    if "\<not> vetoed s n options" "\<not> takeOverDispatch s" "afterDispatch s = Some h" for h
    using that by (simp add: dispatch_AfterDispatchCall)
  show ?thesis
    unfolding Let_def
    apply (intro conjI impI allI)
             apply (erule eq_keys)
            apply (erule eq_lis)
           apply (erule (1) eq_aft)
          apply (erule (1) eq_state)
         apply (erule ne_changed)
        apply (erule (1) ne_state)
       apply (erule (3) ne_lis)
      apply (erule (2) aft)
     apply (erule new)
    done
qed

theorem check_semantics_witness:
  "check (effective_options plain_store (Options \<lparr>check = Some True, onChanged = None\<rparr>)) = Some True \<and>
   ''name'' \<in> set (keys (heap plain_store 3)) \<and> ''name'' \<in> set (keys (heap plain_store 4)) \<and>
   actions plain_store ''name'' = None \<and>
   \<not> vetoed plain_store 3 (Options \<lparr>check = Some True, onChanged = None\<rparr>) \<and>
   \<not> vetoed plain_store 4 (Options \<lparr>check = Some True, onChanged = None\<rparr>) \<and>
   \<not> takeOverDispatch plain_store \<and>
   strict_eq (get_prop (heap plain_store 3) ''name'') (get_prop (heap plain_store (state plain_store)) ''name'') \<and>
   ''name'' \<notin> set (keys (dispatch_changedState plain_store 3 (Options \<lparr>check = Some True, onChanged = None\<rparr>))) \<and>
   new_events plain_store (dispatch plain_store 3 (Options \<lparr>check = Some True, onChanged = None\<rparr>)) =
     [ActionCall ''count'' (JNum 5) 0 [(''count'', JNum 0), (''name'', JStr ''a'')],
      ListenerCall ''count'' 8, AfterDispatchCall 0 [(''count'', JNum 5)]] \<and>
   heap (dispatch plain_store 3 (Options \<lparr>check = Some True, onChanged = None\<rparr>))
        (state (dispatch plain_store 3 (Options \<lparr>check = Some True, onChanged = None\<rparr>))) =
     [(''count'', JNum 5), (''name'', JStr ''a'')] \<and>
   \<not> strict_eq (get_prop (heap plain_store 4) ''name'') (get_prop (heap plain_store (state plain_store)) ''name'') \<and>
   map_of (dispatch_changedState plain_store 4 (Options \<lparr>check = Some True, onChanged = None\<rparr>)) ''name'' =
     Some (JStr ''z'') \<and>
   new_events plain_store (dispatch plain_store 4 (Options \<lparr>check = Some True, onChanged = None\<rparr>)) =
     [ActionCall ''count'' (JNum 5) 0 [(''count'', JNum 0), (''name'', JStr ''a'')],
      ListenerCall ''count'' 8, ListenerCall ''name'' 7,
      AfterDispatchCall 0 [(''count'', JNum 5), (''name'', JStr ''z'')]] \<and>
   heap (dispatch plain_store 4 (Options \<lparr>check = Some True, onChanged = None\<rparr>))
        (state (dispatch plain_store 4 (Options \<lparr>check = Some True, onChanged = None\<rparr>))) =
     [(''count'', JNum 5), (''name'', JStr ''z'')]"
  using check_semantics [of plain_store "Options \<lparr>check = Some True, onChanged = None\<rparr>" "''name''" 3]
    check_semantics [of plain_store "Options \<lparr>check = Some True, onChanged = None\<rparr>" "''name''" 4]
  by (simp add: plain_store_def store_eval)

section \<open>Transforms and the stored state\<close>

text \<open>
  C9 as stated fails in two ways. First, the partial state passed to \<^verbatim>\<open>dispatch\<close> may
  be the stored state object itself (\<^verbatim>\<open>getState()\<close> returns it, and the constructor keeps
  the caller's object): the merge of the hook's object at line 125 then writes into the
  stored state before any transform runs, and the transform of \<^verbatim>\<open>count\<close> receives
  \<^verbatim>\<open>{count: 5, name: "a"}\<close> where the state before the dispatch was
  \<^verbatim>\<open>{count: 0, name: "a"}\<close>. Second, a vetoed dispatch does not replace the stored state.
\<close>

theorem transforms_see_old_state_counterexample:
  "heap alias_store (state alias_store) = [(''count'', JNum 0), (''name'', JStr ''a'')] \<and>
   ActionCall ''count'' (JNum 5) (state alias_store) [(''count'', JNum 5), (''name'', JStr ''a'')]
     \<in> set (new_events alias_store (dispatch alias_store (state alias_store) Omitted)) \<and>
   vetoed veto_store 1 Omitted \<and>
   state (dispatch veto_store 1 Omitted) = state veto_store"
  by (simp add: alias_store_def ripple_store_def veto_store_def store_eval)

text \<open>
  C9, amended. Within a single dispatch whose partial state is not the stored state
  object itself, every transform call receives, as its second argument, the state object
  stored before the dispatch began, with the contents it had then; so what earlier keys
  of the same dispatch contributed to the changed-set is never visible to the transforms
  of later keys. When the dispatch is not vetoed, the stored state is replaced exactly
  once, after all input keys have been processed: by the one object the dispatch
  allocates, made of the old contents and the whole changed-set.
\<close>

theorem transforms_see_old_state:
  assumes "n \<noteq> state s"
  shows "(\<forall>k v a ob. ActionCall k v a ob \<in> set (new_events s (dispatch s n options)) \<longrightarrow>
            a = state s \<and> ob = heap s (state s)) \<and>
         (\<not> vetoed s n options \<longrightarrow>
            state (dispatch s n options) = next_addr s \<and>
            next_addr (dispatch s n options) = Suc (next_addr s) \<and>
            heap (dispatch s n options) (next_addr s) =
              assign (assign [] (heap s (state s))) (dispatch_changedState s n options))"
proof -
  have h: "heap (entered s n options) (state s) = heap s (state s)"
    using assms entered_heap_other [of "state s" n s options] by simp
  show ?thesis
    using dispatch_ActionCall [of _ _ _ _ s n options]
    by (auto simp: h dispatch_state dispatch_next_addr dispatch_heap)
qed

theorem transforms_see_old_state_witness:
  "(3::nat) \<noteq> state ripple_store \<and> \<not> vetoed ripple_store 3 Omitted \<and>
   new_events ripple_store (dispatch ripple_store 3 Omitted) =
     [ActionCall ''count'' (JNum 5) 0 [(''count'', JNum 0), (''name'', JStr ''a'')],
      ListenerCall ''count'' 8, ListenerCall ''name'' 7,
      AfterDispatchCall 0 [(''count'', JNum 5), (''name'', JStr ''a'')]] \<and>
   heap ripple_store (state ripple_store) = [(''count'', JNum 0), (''name'', JStr ''a'')] \<and>
   state (dispatch ripple_store 3 Omitted) = 5 \<and>
   next_addr ripple_store = 5 \<and>
   next_addr (dispatch ripple_store 3 Omitted) = 6 \<and>
   heap (dispatch ripple_store 3 Omitted) 5 = [(''count'', JNum 5), (''name'', JStr ''a'')]"
  using transforms_see_old_state [of 3 ripple_store Omitted]
  by (simp add: ripple_store_def store_eval)

section \<open>Hand-off mode\<close>

text \<open>
  C6 as stated fails for a vetoed dispatch: with hand-off mode on and a pre-dispatch
  hook that returns \<^verbatim>\<open>false\<close>, \<^verbatim>\<open>dispatch({count: 1})\<close> takes batch number 1, stores no
  options under it and does not update the state.
\<close>

theorem handoff_counterexample:
  "takeOverDispatch handoff_veto_store \<and>
   dispatchBatch (dispatch handoff_veto_store 1 Omitted) = 1 \<and>
   dispatchBatchOptionsMap (dispatch handoff_veto_store 1 Omitted) 1 = None \<and>
   state (dispatch handoff_veto_store 1 Omitted) = state handoff_veto_store \<and>
   heap (dispatch handoff_veto_store 1 Omitted) (state (dispatch handoff_veto_store 1 Omitted)) =
     [(''count'', JNum 0), (''name'', JStr ''a'')]"
  by (simp add: handoff_veto_store_def veto_store_def store_eval)

text \<open>
  C6, amended. With hand-off mode on, every dispatch that is not vetoed updates the
  state (a new object, the old contents merged with the changed-set) and calls nothing
  but the pre-dispatch hook and the transforms, so no listener; it stores its effective
  options under its batch number \<open>b\<close>. After any operations \<open>ops\<close> that do not call
  \<^verbatim>\<open>executeListeners\<close> for \<open>b\<close> with the options omitted, a call \<^verbatim>\<open>executeListeners(b, c)\<close>
  with the options omitted runs the pass with the stored options and removes the entry.
  After any further operations \<open>ops'\<close>, a second such call \<^verbatim>\<open>executeListeners(b, c')\<close>
  finds no entry: it calls the listeners of the keys of \<open>c'\<close>, emits the warning, does
  not call \<^verbatim>\<open>onChanged\<close>, and calls the post-dispatch hook when one is registered. Every
  function of the model is total: none of these calls throws.
\<close>

theorem handoff_correlation:
  assumes "takeOverDispatch s" and "\<not> vetoed s n options"
    and "\<forall>p \<in> set ops. \<forall>c. p \<noteq> ExecuteListeners (Suc (dispatchBatch s)) c None"
  shows "(let s1 = dispatch s n options;
              b = dispatchBatch s1;
              optionsH = effective_options s options;
              t1 = after_ops ops s1;
              s2 = executeListeners t1 b c None;
              t2 = after_ops ops' s2;
              s3 = executeListeners t2 b c' None
          in b = Suc (dispatchBatch s) \<and>
             state s1 = next_addr s \<and>
             heap s1 (state s1) =
               assign (assign [] (heap (entered s n options) (state s))) (dispatch_changedState s n options) \<and>
             new_events s s1 =
               hook_events s n optionsH @ action_events (entered s n options) n (keys (heap s n)) \<and>
             (\<forall>K l. ListenerCall K l \<notin> set (new_events s s1)) \<and>
             dispatchBatchOptionsMap s1 b = Some optionsH \<and>
             new_events t1 s2 = listener_events (listeners t1) (keys c) @ completion_events t1 b c (Some optionsH) \<and>
             dispatchBatchOptionsMap s2 b = None \<and>
             new_events t2 s3 =
               listener_events (listeners t2) (keys c') @ [Warn b] @
               (case afterDispatch t2 of Some h \<Rightarrow> [AfterDispatchCall h c'] | None \<Rightarrow> []))"
proof -
  let ?s1 = "dispatch s n options"
  let ?b = "Suc (dispatchBatch s)"
  let ?oh = "effective_options s options"
  let ?t1 = "after_ops ops ?s1"
  let ?s2 = "executeListeners ?t1 ?b c None"
  let ?t2 = "after_ops ops' ?s2"
  note d = dispatch_handoff_eq [OF assms(1,2)]
  have b: "dispatchBatch ?s1 = ?b"
    by (simp add: d entered_fields)
  have st: "state ?s1 = next_addr s"
    by (simp add: d)
  have hp: "heap ?s1 (state ?s1) =
      assign (assign [] (heap (entered s n options) (state s))) (dispatch_changedState s n options)"
    by (simp add: d)
  have ev: "new_events s ?s1 =
      hook_events s n ?oh @ action_events (entered s n options) n (keys (heap s n))"
    by (simp add: d new_events_def)
  have nl: "\<forall>K l. ListenerCall K l \<notin> set (new_events s ?s1)"
    using assms by (simp add: dispatch_ListenerCall)
  have m1: "dispatchBatchOptionsMap ?s1 ?b = Some ?oh"
    by (simp add: d)
  have k1: "dispatchBatchOptionsMap ?t1 ?b = Some ?oh \<and> ?b \<le> dispatchBatch ?t1"
    using after_ops_map_keep [of ?b ?s1 ops] assms(3) by (simp add: b m1)
  have ev2: "new_events ?t1 ?s2 =
      listener_events (listeners ?t1) (keys c) @ completion_events ?t1 ?b c (Some ?oh)"
    by (simp add: executeListeners_new_events k1)
  have m2: "dispatchBatchOptionsMap ?s2 ?b = None"
    by (simp add: executeListeners_omitted)
  have "?b \<le> dispatchBatch ?s2"
    using k1 by (simp add: executeListeners_batch)
  then have k2: "dispatchBatchOptionsMap ?t2 ?b = None"
    using m2 by (rule after_ops_map_None)
  have ev3: "new_events ?t2 (executeListeners ?t2 ?b c' None) =
      listener_events (listeners ?t2) (keys c') @ [Warn ?b] @
      (case afterDispatch ?t2 of Some h \<Rightarrow> [AfterDispatchCall h c'] | None \<Rightarrow> [])"
    by (simp add: executeListeners_new_events k2 completion_events_def)
  show ?thesis
    unfolding Let_def b
    using st hp ev nl m1 ev2 m2 ev3 by blast
qed

theorem handoff_correlation_witness:
  "takeOverDispatch handoff_store \<and> \<not> vetoed handoff_store 1 (Callback 3) \<and>
   dispatchBatch handoff_s1 = 1 \<and>
   state handoff_s1 = 5 \<and>
   (\<forall>K l. ListenerCall K l \<notin> set (new_events handoff_store handoff_s1)) \<and>
   dispatchBatchOptionsMap handoff_s1 1 = Some \<lparr>check = Some False, onChanged = Some 3\<rparr> \<and>
   dispatchBatchOptionsMap handoff_s2 1 = None \<and>
   new_events handoff_t1 handoff_s2 =
     [ListenerCall ''count'' 8, OnChangedCall 3 6, AfterDispatchCall 0 [(''count'', JNum 1)]] \<and>
   new_events handoff_t2 handoff_s3 =
     [ListenerCall ''count'' 8, ListenerCall ''count'' 9, Warn 1,
      AfterDispatchCall 0 [(''count'', JNum 1)]]"
proof -
  have h1: "takeOverDispatch handoff_store"
    by (simp add: handoff_store_def)
  have h2: "\<not> vetoed handoff_store 1 (Callback 3)"
    by (simp add: handoff_store_def store_eval)
  have h3: "\<forall>p \<in> set [Dispatch 3 Omitted].
              \<forall>c. p \<noteq> ExecuteListeners (Suc (dispatchBatch handoff_store)) c None"
    by simp
  have b: "dispatchBatch handoff_store = 0" "next_addr handoff_store = 5"
    by (simp_all add: handoff_store_def store_eval)
  have oh: "effective_options handoff_store (Callback 3) = \<lparr>check = Some False, onChanged = Some 3\<rparr>"
    by (simp add: handoff_store_def store_eval)
  note w = handoff_correlation [OF h1 h2 h3, of "[(''count'', JNum 1)]" "[Subscribe 9 ''count'']"
      "[(''count'', JNum 1)]", unfolded Let_def, folded handoff_s1_def]
  from w have a: "dispatchBatch handoff_s1 = 1"
    by (simp add: b)
  note w' = w [unfolded a, folded handoff_t1_def, folded handoff_s2_def, folded handoff_t2_def,
      folded handoff_s3_def]
  from w' have c1: "state handoff_s1 = next_addr handoff_store"
    and c2: "\<forall>K l. ListenerCall K l \<notin> set (new_events handoff_store handoff_s1)"
    and c3: "dispatchBatchOptionsMap handoff_s1 1 = Some (effective_options handoff_store (Callback 3))"
    and c4: "dispatchBatchOptionsMap handoff_s2 1 = None"
    by blast+
  have e1: "new_events handoff_t1 handoff_s2 =
     [ListenerCall ''count'' 8, OnChangedCall 3 6, AfterDispatchCall 0 [(''count'', JNum 1)]]"
    by code_simp
  have e2: "new_events handoff_t2 handoff_s3 =
     [ListenerCall ''count'' 8, ListenerCall ''count'' 9, Warn 1,
      AfterDispatchCall 0 [(''count'', JNum 1)]]"
    by code_simp
  from h1 h2 a c1 [unfolded b] c2 c3 [unfolded oh] c4 e1 e2 show ?thesis
    by blast
qed

section \<open>The pending-options map\<close>

text \<open>
  C8 as stated fails: \<^verbatim>\<open>executeListeners\<close> looks the options up and deletes the entry
  only when its options argument is omitted (line 162). After a hand-off dispatch of
  batch 1 and a call \<^verbatim>\<open>executeListeners(1, {count: 1}, {check: false})\<close> the listener on
  \<^verbatim>\<open>count\<close> has been notified for batch 1 and the entry of batch 1 is still in the map.
\<close>

theorem pending_options_counterexample:
  "trace (fst explicit_options_run) = [ListenerCall ''count'' 8] \<and>
   dispatchBatch (fst explicit_options_run) = 1 \<and>
   dispatchBatchOptionsMap (fst explicit_options_run) 1 = Some \<lparr>check = Some False, onChanged = None\<rparr>"
  by (simp add: explicit_options_run_def store_eval)

text \<open>
  C8, amended. A dispatch executed with hand-off mode off leaves the pending-options map
  as it was; after \<^verbatim>\<open>executeListeners\<close> has been called for a batch with the options
  argument omitted, the map has no entry for that batch; and in every store reached from
  a new store by any sequence of operations, the keys of the map are exactly the
  outstanding batches: those dispatched in hand-off mode and not vetoed, for which
  \<^verbatim>\<open>executeListeners\<close> has not yet been called with the options omitted.
\<close>

theorem pending_options_outstanding:
  "(\<not> takeOverDispatch s \<longrightarrow>
      dispatchBatchOptionsMap (dispatch s n options) = dispatchBatchOptionsMap s) \<and>
   dispatchBatchOptionsMap (executeListeners s b c None) b = None \<and>
   dom (dispatchBatchOptionsMap (fst (run ops (new_Store h a st acts, {})))) =
     snd (run ops (new_Store h a st acts, {}))"
proof -
  have "dom (dispatchBatchOptionsMap (new_Store h a st acts)) = {}"
    by (simp add: new_Store_def)
  from run_dom [OF this] show ?thesis
    by (simp add: dispatch_map executeListeners_map)
qed

theorem pending_options_outstanding_witness:
  "\<not> takeOverDispatch example_store \<and>
   dispatchBatchOptionsMap (dispatch example_store 1 Omitted) 1 = None \<and>
   dispatchBatchOptionsMap (dispatch example_store 1 Omitted) = dispatchBatchOptionsMap example_store \<and>
   dispatchBatch (fst example_run) = 3 \<and>
   snd example_run = {2} \<and>
   dom (dispatchBatchOptionsMap (fst example_run)) = {2}"
  using pending_options_outstanding [of example_store 1 Omitted 0 "[]"
      "[Subscribe 8 ''count'', SetTakeOverDispatch True, Dispatch 1 Omitted, Dispatch 3 Omitted,
          ExecuteListeners 1 [(''count'', JNum 1)] None, SetTakeOverDispatch False, Dispatch 4 Omitted]"
      example_heap 5 0 Map.empty]
  by (simp add: example_run_def store_eval insert_Diff_if numeral_2_eq_2)

end
